theory Spec2Isabelle
  imports Complex_Main "HOL-Library.Word"
begin

unbundle bit_operations_syntax

section \<open>Protocol constants\<close>

text \<open>
  The constants of \<^verbatim>\<open>send_and_receive\<close> (second half of \<^verbatim>\<open>src/b4.py\<close>).
  Python integers are unbounded, so every value is an \<^typ>\<open>int\<close>.
\<close>

definition START_BYTE :: int where "START_BYTE = 0xAA"
definition END_BYTE :: int where "END_BYTE = 0x55"
definition MAX_PWM :: int where "MAX_PWM = 255"
definition MIN_PWM :: int where "MIN_PWM = 0"

section \<open>The checksum: \<^verbatim>\<open>calculate_crc\<close>\<close>

text \<open>
  One pass of the inner loop body (lines 234 to 238): the test \<^verbatim>\<open>crc & 0x80\<close>, the
  shift with or without the XOR, then the mask \<^verbatim>\<open>crc &= 0xFF\<close>.
\<close>

definition crc_shift :: "int \<Rightarrow> int" where
  "crc_shift crc =
     (let crc' = (if crc AND 0x80 \<noteq> 0 then push_bit 1 crc XOR 0x07 else push_bit 1 crc)
      in crc' AND 0xFF)"

text \<open>The body of the outer loop: \<^verbatim>\<open>crc ^= byte\<close>, then \<^verbatim>\<open>for _ in range(8)\<close>.\<close>

definition crc_byte :: "int \<Rightarrow> int \<Rightarrow> int" where
  "crc_byte crc byte = (crc_shift ^^ 8) (crc XOR byte)"

text \<open>The outer loop over the data, with the accumulator passed along.\<close>

fun crc_loop :: "int \<Rightarrow> int list \<Rightarrow> int" where
  "crc_loop crc [] = crc"
| "crc_loop crc (byte # data) = crc_loop (crc_byte crc byte) data"

definition calculate_crc :: "int list \<Rightarrow> int" where
  "calculate_crc data = crc_loop 0 data"

subsection \<open>The CRC-8 of the specification\<close>

text \<open>
  The checksum as the specification words it, on an 8-bit accumulator: the mask to 8 bits
  is the width of the word.  Initial value 0, each byte is XORed in, then eight times: if
  the most significant bit is set, shift left by one and XOR with the generator 0x07,
  else shift left by one.  No reflection, no final XOR.
\<close>

definition spec_crc8_step :: "8 word \<Rightarrow> 8 word" where
  "spec_crc8_step acc = (if bit acc 7 then push_bit 1 acc XOR 0x07 else push_bit 1 acc)"

definition spec_crc8_byte :: "8 word \<Rightarrow> 8 word \<Rightarrow> 8 word" where
  "spec_crc8_byte acc b = (spec_crc8_step ^^ 8) (acc XOR b)"

definition spec_crc8 :: "8 word list \<Rightarrow> 8 word" where
  "spec_crc8 bs = foldl spec_crc8_byte 0 bs"

section \<open>The sender: \<^verbatim>\<open>send_data\<close>\<close>

datatype error = ValueError | OverflowError

text \<open>
  \<^verbatim>\<open>bytes(xs)\<close> raises \<^verbatim>\<open>ValueError\<close> unless every element is in \<^verbatim>\<open>range(256)\<close>.
\<close>

definition bytes_ok :: "int list \<Rightarrow> bool" where
  "bytes_ok xs = list_all (\<lambda>x. 0 \<le> x \<and> x < 256) xs"

text \<open>The range validation of one value (lines 270 to 273).\<close>

definition clamp_pwm :: "int \<Rightarrow> int" where
  "clamp_pwm pwm_value =
     (if pwm_value < MIN_PWM then MIN_PWM
      else if pwm_value > MAX_PWM then MAX_PWM
      else pwm_value)"

text \<open>
  The elements of the payload array are numbers: integers, or floats.  A finite float is
  given by its exact value, the other floats are NaN and the two infinities.
\<close>

datatype number = IntVal int | FloatVal real | NaN | PosInf | NegInf

text \<open>
  \<^verbatim>\<open>int(pwm)\<close> (line 269): the identity on an integer; a finite float is truncated towards
  zero; NaN raises \<^verbatim>\<open>ValueError\<close> and an infinity raises \<^verbatim>\<open>OverflowError\<close>.
\<close>

fun py_int :: "number \<Rightarrow> error + int" where
  "py_int (IntVal n) = Inr n"
| "py_int (FloatVal r) = Inr (if 0 \<le> r then \<lfloor>r\<rfloor> else \<lceil>r\<rceil>)"
| "py_int NaN = Inl ValueError"
| "py_int PosInf = Inl OverflowError"
| "py_int NegInf = Inl OverflowError"

text \<open>
  The loop of step 3 converts each value, validates it and appends it to both
  \<^verbatim>\<open>pwm_values\<close> and \<^verbatim>\<open>data_to_send\<close>; the function returns \<^verbatim>\<open>pwm_values\<close>, or the
  exception of the first conversion that raises.
\<close>

fun pwm_loop :: "int list \<Rightarrow> number list \<Rightarrow> error + int list" where
  "pwm_loop pwm_values [] = Inr pwm_values"
| "pwm_loop pwm_values (pwm # data) =
     (case py_int pwm of
        Inl e \<Rightarrow> Inl e
      | Inr pwm_value \<Rightarrow> pwm_loop (pwm_values @ [clamp_pwm pwm_value]) data)"

text \<open>
  \<^verbatim>\<open>send_data(ser, data)\<close>.  The port \<open>ser\<close> is the list of bytes written to it so far;
  the result is the port after the call, or the exception raised.  The raises are the
  conversions of step 3 and \<^verbatim>\<open>bytes([data_length] + pwm_values)\<close> of step 4; both happen
  before the first write.
\<close>

definition send_data :: "int list \<Rightarrow> number list \<Rightarrow> error + int list" where
  "send_data ser data =
     (let data_length = int (length data)
      in case pwm_loop [] data of
           Inl e \<Rightarrow> Inl e
         | Inr pwm_values \<Rightarrow>
             (let crc_data = data_length # pwm_values
              in if \<not> bytes_ok crc_data then Inl ValueError
                 else
                   (let crc = calculate_crc crc_data;
                        data_to_send =
                          [START_BYTE, data_length] @ pwm_values @ [crc, END_BYTE]
                    in Inr (ser @ data_to_send))))"

section \<open>The receiver: \<^verbatim>\<open>receive_data\<close>\<close>

text \<open>
  The receiving port is the list of results its next calls of \<^verbatim>\<open>ser.read(1)\<close> will give:
  \<open>Some b\<close> is a byte, \<open>None\<close> a read that timed out (an empty \<^verbatim>\<open>bytes\<close>).  When the list
  is used up nothing more arrives and every read times out.
\<close>

type_synonym port = "int option list"

fun read1 :: "port \<Rightarrow> int option \<times> port" where
  "read1 [] = (None, [])"
| "read1 (r # ser) = (r, ser)"

text \<open>A lossless link hands the receiver exactly the bytes that were written.\<close>

definition lossless :: "int list \<Rightarrow> port" where
  "lossless bs = map Some bs"

text \<open>
  The code returns a pair (array, acknowledgement).  The model adds, as a third component,
  which return statement was taken, under the names of the specification's outcomes:
  \<open>Timeout\<close> for lines 312, 319, 331 and 337, \<open>Desync\<close> for lines 324 and 343,
  \<open>CrcMismatch\<close> for line 352, \<open>RangeError\<close> for line 363, \<open>Success\<close> for line 374, and
  \<open>ReceiveError\<close> for the exception handler of line 372.
\<close>

datatype status = Success | CrcMismatch | RangeError | Desync | Timeout | ReceiveError

type_synonym outcome = "int list \<times> bool \<times> status"

text \<open>
  Step 1, the \<^verbatim>\<open>while True\<close> loop: \<open>(True, ser')\<close> when the start byte was read,
  \<open>(False, ser')\<close> when a read timed out.  The equations are \<^const>\<open>read1\<close> unfolded.
\<close>

fun wait_start :: "port \<Rightarrow> bool \<times> port" where
  "wait_start [] = (False, [])"
| "wait_start (None # ser) = (False, ser)"
| "wait_start (Some byte # ser) =
     (if byte = START_BYTE then (True, ser) else wait_start ser)"

text \<open>
  Step 3, \<^verbatim>\<open>for _ in range(data_length)\<close>: \<open>None\<close> when a read timed out, else the
  values read.
\<close>

fun read_pwm :: "nat \<Rightarrow> int list \<Rightarrow> port \<Rightarrow> int list option \<times> port" where
  "read_pwm 0 pwm_values ser = (Some pwm_values, ser)"
| "read_pwm (Suc n) pwm_values ser =
     (case read1 ser of
        (None, ser') \<Rightarrow> (None, ser')
      | (Some pwm_byte, ser') \<Rightarrow> read_pwm n (pwm_values @ [pwm_byte]) ser')"

text \<open>Step 7: the loop with \<^verbatim>\<open>break\<close> leaves \<^verbatim>\<open>valid\<close> true iff no value is out of range.\<close>

definition range_valid :: "int list \<Rightarrow> bool" where
  "range_valid pwm_values = (\<not> list_ex (\<lambda>pwm. pwm < MIN_PWM \<or> pwm > MAX_PWM) pwm_values)"

text \<open>
  \<^verbatim>\<open>receive_data(ser)\<close>: the outcome and the port after the call.
  \<^verbatim>\<open>range(data_length)\<close> is empty for a negative length, as \<^const>\<open>nat\<close> gives 0.
\<close>

definition receive_data :: "port \<Rightarrow> outcome \<times> port" where
  "receive_data ser =
     (case wait_start ser of
        (False, ser1) \<Rightarrow> (([], False, Timeout), ser1)
      | (True, ser1) \<Rightarrow>
     (case read1 ser1 of
        (None, ser2) \<Rightarrow> (([], False, Timeout), ser2)
      | (Some data_length, ser2) \<Rightarrow>
     if data_length = 0 \<or> data_length > 200 then (([], False, Desync), ser2)
     else
     (case read_pwm (nat data_length) [] ser2 of
        (None, ser3) \<Rightarrow> (([], False, Timeout), ser3)
      | (Some pwm_values, ser3) \<Rightarrow>
     (case read1 ser3 of
        (None, ser4) \<Rightarrow> (([], False, Timeout), ser4)
      | (Some received_crc, ser4) \<Rightarrow>
     (case read1 ser4 of
        (None, ser5) \<Rightarrow> (([], False, Desync), ser5)
      | (Some end_byte, ser5) \<Rightarrow>
     if end_byte \<noteq> END_BYTE then (([], False, Desync), ser5)
     else if \<not> bytes_ok (data_length # pwm_values) then (([], False, ReceiveError), ser5)
     else if calculate_crc (data_length # pwm_values) \<noteq> received_crc
       then ((pwm_values, False, CrcMismatch), ser5)
     else if \<not> range_valid pwm_values then ((pwm_values, False, RangeError), ser5)
     else ((pwm_values, True, Success), ser5))))))"

section \<open>The receiver task: \<^verbatim>\<open>receive_thread_task\<close>\<close>

text \<open>\<^verbatim>\<open>np.any(arr)\<close>: some element is not zero.\<close>

definition np_any :: "int list \<Rightarrow> bool" where
  "np_any arr = list_ex (\<lambda>x. x \<noteq> 0) arr"

text \<open>
  The state of the loop: the port, the list \<^verbatim>\<open>received_data\<close>, the counter
  \<^verbatim>\<open>no_of_success[0]\<close> and the counter \<^verbatim>\<open>no_of_tries\<close>.
\<close>

record task_state =
  ser :: port
  received_data :: "int list list"
  no_of_success :: int
  no_of_tries :: nat

text \<open>One pass of the loop body (lines 384 to 393).\<close>

definition task_step :: "task_state \<Rightarrow> task_state" where
  "task_step s =
     (case receive_data (ser s) of
        ((received_arr, acknowledgement, st), ser') \<Rightarrow>
          (let s1 = s\<lparr>ser := ser'\<rparr>;
               s2 = (if np_any received_arr \<or> acknowledgement
                     then (let s' = s1\<lparr>received_data := received_data s1 @ [received_arr]\<rparr>
                           in if acknowledgement
                              then s'\<lparr>no_of_success := no_of_success s' + 1\<rparr>
                              else s')
                     else s1)
           in s2\<lparr>no_of_tries := no_of_tries s2 + 1\<rparr>))"

text \<open>The \<^verbatim>\<open>while\<close> loop of line 381.\<close>

function task_loop :: "task_state \<Rightarrow> task_state" where
  "task_loop s =
     (if length (received_data s) < 100 \<and> no_of_tries s < 150
      then task_loop (task_step s) else s)"
  by pat_completeness auto
termination
  by (relation "measure (\<lambda>s. 150 - no_of_tries s)") (auto simp: task_step_def Let_def split: prod.split)

text \<open>
  \<^verbatim>\<open>receive_thread_task(received_data, no_of_success)\<close> on an opened port:
  \<^verbatim>\<open>no_of_tries\<close> starts at 0.
\<close>

definition receive_thread_task :: "port \<Rightarrow> int list list \<Rightarrow> int \<Rightarrow> task_state" where
  "receive_thread_task p rd ns =
     task_loop \<lparr>ser = p, received_data = rd, no_of_success = ns, no_of_tries = 0\<rparr>"

text \<open>
  To speak about the loop: the outcomes of the first \<open>n\<close> calls of \<^const>\<open>receive_data\<close>
  on a port, each call starting where the one before stopped; the outcomes the loop body
  appends to \<^verbatim>\<open>received_data\<close> (line 386); and the acknowledged ones.
\<close>

fun attempts :: "nat \<Rightarrow> port \<Rightarrow> outcome list" where
  "attempts 0 p = []"
| "attempts (Suc n) p = (case receive_data p of (out, p') \<Rightarrow> out # attempts n p')"

definition recorded :: "outcome \<Rightarrow> bool" where
  "recorded out = (case out of (arr, ack, st) \<Rightarrow> np_any arr \<or> ack)"

definition acked :: "outcome \<Rightarrow> bool" where
  "acked out = (case out of (arr, ack, st) \<Rightarrow> ack)"

text \<open>The loop equation is unfolded by hand in the proofs.\<close>

declare task_loop.simps [simp del]

section \<open>The checksum is the CRC-8 of the specification\<close>

text \<open>
  The code computes on unbounded integers and masks after every shift; the specification
  speaks of an 8-bit accumulator.  Each step of the code, read as an 8-bit word, is the
  step of the specification, and the code's accumulator stays within a byte.
\<close>

lemma msb_test: "(c AND 0x80 \<noteq> 0) = bit (c::int) 7"
proof -
  have "(c AND 2 ^ 7 = 0) = (\<not> bit c 7)" by (rule and_exp_eq_0_iff_not_bit)
  then show ?thesis by simp
qed

lemma mask_byte: "(x::int) AND 0xFF = take_bit 8 x"
proof -
  have "x AND mask 8 = take_bit 8 x" by (simp add: take_bit_eq_mask)
  then show ?thesis by (simp add: mask_eq_exp_minus_1)
qed

lemma word_take_bit8: "(word_of_int (take_bit 8 x) :: 8 word) = word_of_int x"
  by (simp add: word_of_int_eq_iff)

lemma shift_word: "(word_of_int (crc_shift c) :: 8 word) = spec_crc8_step (word_of_int c)"
  unfolding crc_shift_def spec_crc8_step_def Let_def msb_test mask_byte
  by (simp add: bit_word_of_int_iff of_int_xor_eq of_int_push_bit word_take_bit8)

lemma shift_range: "0 \<le> crc_shift c \<and> crc_shift c < 256"
  unfolding crc_shift_def Let_def mask_byte
  using take_bit_int_less_exp[of 8] by simp

lemma funpow_shift_word:
  "(word_of_int ((crc_shift ^^ n) c) :: 8 word) = (spec_crc8_step ^^ n) (word_of_int c)"
  by (induction n) (simp_all add: shift_word)

lemma funpow_shift_range: "0 < n \<Longrightarrow> 0 \<le> (crc_shift ^^ n) c \<and> (crc_shift ^^ n) c < 256"
  by (cases n) (simp_all add: shift_range)

lemma crc_byte_word:
  "(word_of_int (crc_byte c b) :: 8 word) = spec_crc8_byte (word_of_int c) (word_of_int b)"
  by (simp add: crc_byte_def spec_crc8_byte_def funpow_shift_word of_int_xor_eq)

lemma crc_byte_range: "0 \<le> crc_byte c b \<and> crc_byte c b < 256"
  unfolding crc_byte_def by (rule funpow_shift_range) simp

lemma crc_loop_word:
  "(word_of_int (crc_loop c data) :: 8 word) = foldl spec_crc8_byte (word_of_int c) (map word_of_int data)"
  by (induction data arbitrary: c) (simp_all add: crc_byte_word)

lemma crc_loop_range: "0 \<le> c \<Longrightarrow> c < 256 \<Longrightarrow> 0 \<le> crc_loop c data \<and> crc_loop c data < 256"
  by (induction data arbitrary: c) (simp_all add: crc_byte_range)

lemma calculate_crc_range: "0 \<le> calculate_crc data \<and> calculate_crc data < 256"
  unfolding calculate_crc_def by (rule crc_loop_range) simp_all

lemma calculate_crc_check_value:
  "calculate_crc [0x31, 0x32, 0x33, 0x34, 0x35, 0x36, 0x37, 0x38, 0x39] = 0xF4"
  by code_simp

text \<open>
  C2.  For every byte sequence, \<^const>\<open>calculate_crc\<close> returns exactly the CRC-8 that the
  specification defines (accumulator initially 0; per byte an XOR into the accumulator and
  eight steps of shift-left, with an XOR of 0x07 when the most significant bit was set,
  kept to 8 bits; the result is the final accumulator).  Stated twice: for a list of
  integers, read as 8-bit words, and for a list of 8-bit words, read as integers.
\<close>

theorem calculate_crc_is_spec_crc8:
  "calculate_crc data = uint (spec_crc8 (map word_of_int data)) \<and>
   calculate_crc (map uint bs) = uint (spec_crc8 bs)"
proof -
  have g: "calculate_crc xs = uint (spec_crc8 (map word_of_int xs))" for xs
  proof -
    have "(word_of_int (calculate_crc xs) :: 8 word) = spec_crc8 (map word_of_int xs)"
      by (simp add: calculate_crc_def spec_crc8_def crc_loop_word)
    then have "uint (spec_crc8 (map word_of_int xs)) =
        uint (word_of_int (calculate_crc xs) :: 8 word)"
      by simp
    also have "\<dots> = take_bit 8 (calculate_crc xs)"
      by (simp add: uint_word_of_int_eq)
    also have "\<dots> = calculate_crc xs"
      using calculate_crc_range [of xs] by (simp add: take_bit_int_eq_self)
    finally show ?thesis by simp
  qed
  have "map word_of_int (map uint bs) = bs"
    by (simp add: map_idI)
  with g [of "map uint bs"] g [of data] show ?thesis by simp
qed

section \<open>Frames through the decoder\<close>

text \<open>The value the loop of step 3 appends for a number whose conversion does not raise.\<close>

lemma pwm_loop_finite:
  "\<forall>v\<in>set data. v \<noteq> NaN \<and> v \<noteq> PosInf \<and> v \<noteq> NegInf \<Longrightarrow>
   pwm_loop acc data = Inr (acc @ map (\<lambda>v. clamp_pwm (projr (py_int v))) data)"
proof (induction data arbitrary: acc)
  case Nil
  show ?case by simp
next
  case (Cons v data)
  then show ?case by (cases v) simp_all
qed

lemma pwm_loop_eq: "pwm_loop acc (map IntVal p) = Inr (acc @ map clamp_pwm p)"
  by (induction p arbitrary: acc) simp_all

lemma clamp_pwm_id: "0 \<le> x \<Longrightarrow> x \<le> 255 \<Longrightarrow> clamp_pwm x = x"
  by (simp add: clamp_pwm_def MIN_PWM_def MAX_PWM_def)

lemma clamp_pwm_low: "x \<le> 0 \<Longrightarrow> clamp_pwm x = 0"
  by (simp add: clamp_pwm_def MIN_PWM_def MAX_PWM_def)

lemma clamp_pwm_high: "255 \<le> x \<Longrightarrow> clamp_pwm x = 255"
  by (simp add: clamp_pwm_def MIN_PWM_def MAX_PWM_def)

lemma clamp_pwm_range: "0 \<le> clamp_pwm x \<and> clamp_pwm x \<le> 255"
  by (simp add: clamp_pwm_def MIN_PWM_def MAX_PWM_def)

lemma map_clamp_id: "\<forall>x\<in>set p. 0 \<le> x \<and> x \<le> 255 \<Longrightarrow> map clamp_pwm p = p"
  by (induction p) (simp_all add: clamp_pwm_id)

lemma bytes_ok_clamped: "bytes_ok (map clamp_pwm data)"
  using clamp_pwm_range by (induction data) (simp_all add: bytes_ok_def, smt (verit))

lemma payload_bytes_ok: "(\<forall>x\<in>set p. 0 \<le> x \<and> x \<le> 255) \<Longrightarrow> bytes_ok p"
  by (auto simp: bytes_ok_def list_all_iff)

text \<open>What the sender writes when the length fits a byte, and that it raises otherwise.\<close>

lemma send_data_eq:
  "length p \<le> 255 \<Longrightarrow>
   send_data tx (map IntVal p) =
     Inr (tx @ [START_BYTE, int (length p)] @ map clamp_pwm p @
          [calculate_crc (int (length p) # map clamp_pwm p), END_BYTE])"
  using bytes_ok_clamped [of p] by (simp add: send_data_def Let_def pwm_loop_eq bytes_ok_def)

lemma send_data_finite:
  assumes "length data \<le> 255"
    and "\<forall>v\<in>set data. v \<noteq> NaN \<and> v \<noteq> PosInf \<and> v \<noteq> NegInf"
  shows "send_data tx data =
     Inr (tx @ [START_BYTE, int (length data)] @
          map (\<lambda>v. clamp_pwm (projr (py_int v))) data @
          [calculate_crc (int (length data) # map (\<lambda>v. clamp_pwm (projr (py_int v))) data),
           END_BYTE])"
proof -
  have "bytes_ok (map clamp_pwm (map (\<lambda>v. projr (py_int v)) data))"
    by (rule bytes_ok_clamped)
  then have "bytes_ok (map (\<lambda>v. clamp_pwm (projr (py_int v))) data)"
    by (simp add: comp_def)
  then show ?thesis
    using assms by (simp add: send_data_def Let_def pwm_loop_finite bytes_ok_def)
qed

lemma send_data_too_long:
  "255 < length p \<Longrightarrow> send_data tx (map IntVal p) = Inl ValueError"
  by (simp add: send_data_def Let_def pwm_loop_eq bytes_ok_def)

text \<open>The three reading loops on a port that starts with the expected bytes.\<close>

lemma wait_start_noise:
  "START_BYTE \<notin> set noise \<Longrightarrow>
   wait_start (map Some noise @ Some START_BYTE # rest) = (True, rest)"
  by (induction noise) auto

lemma read_pwm_all:
  "read_pwm (length ps) acc (map Some ps @ rest) = (Some (acc @ ps), rest)"
  by (induction ps arbitrary: acc) simp_all

lemma read_pwm_short:
  "length ps < n \<Longrightarrow> rest = [] \<or> hd rest = None \<Longrightarrow>
   read_pwm n acc (map Some ps @ rest) = (None, tl rest)"
proof (induction ps arbitrary: acc n)
  case Nil
  then show ?case by (cases n; cases rest) auto
next
  case (Cons a ps)
  then show ?case by (cases n) auto
qed

text \<open>
  A port that delivers noise without a start byte, then a start byte, the length of \<open>ps\<close>,
  the values \<open>ps\<close>, a checksum byte \<open>c\<close> and a closing byte \<open>e\<close>: the decoder reads all of
  it and leaves \<open>rest\<close>.
\<close>

lemma receive_frame:
  assumes "START_BYTE \<notin> set noise" "1 \<le> length ps" "length ps \<le> 200"
  shows "receive_data (map Some noise @ map Some ([START_BYTE, int (length ps)] @ ps @ [c, e]) @ rest) =
     (if e \<noteq> END_BYTE then (([], False, Desync), rest)
      else if \<not> bytes_ok ps then (([], False, ReceiveError), rest)
      else if calculate_crc (int (length ps) # ps) \<noteq> c then ((ps, False, CrcMismatch), rest)
      else ((ps, True, Success), rest))"
proof -
  have r: "range_valid ps" if "bytes_ok ps"
    using that
    by (auto simp: range_valid_def bytes_ok_def list_ex_iff list_all_iff MIN_PWM_def MAX_PWM_def)
  have b: "bytes_ok (int (length ps) # ps) = bytes_ok ps"
    using assms by (simp add: bytes_ok_def)
  have ne: "ps \<noteq> []" using assms by auto
  show ?thesis
    using assms r ne
    by (simp add: receive_data_def wait_start_noise read_pwm_all [where acc = "[]", simplified] b)
qed

section \<open>Round trip\<close>

text \<open>
  C1.  For every payload \<open>p\<close> of 1 to 200 integers, each in 0..255, the sender writes a frame
  without raising, and the decoder, reading exactly that frame from a lossless link,
  returns the payload \<open>p\<close> with acknowledgement true (outcome Success).  Whatever the port
  delivers after the frame is left unread.
\<close>

theorem round_trip:
  assumes "1 \<le> length p" and "length p \<le> 200" and "\<forall>x\<in>set p. 0 \<le> x \<and> x \<le> 255"
  shows "\<exists>frame. send_data [] (map IntVal p) = Inr frame \<and>
           receive_data (lossless frame @ rest) = ((p, True, Success), rest)"
proof -
  let ?frame = "[START_BYTE, int (length p)] @ p @ [calculate_crc (int (length p) # p), END_BYTE]"
  have s: "send_data [] (map IntVal p) = Inr ?frame"
    using assms by (simp add: send_data_eq map_clamp_id)
  have "receive_data (map Some [] @ map Some ?frame @ rest) = ((p, True, Success), rest)"
    using assms payload_bytes_ok [of p] by (subst receive_frame) simp_all
  then have "receive_data (lossless ?frame @ rest) = ((p, True, Success), rest)"
    by (simp add: lossless_def)
  with s show ?thesis by blast
qed

text \<open>
  The instance of the specification's end-to-end example: the payload 10, 20, 30 goes out
  as AA 03 0A 14 1E E4 55 and comes back.
\<close>

theorem round_trip_witness:
  "send_data [] (map IntVal [10, 20, 30]) = Inr [0xAA, 0x03, 0x0A, 0x14, 0x1E, 0xE4, 0x55] \<and>
   receive_data (lossless [0xAA, 0x03, 0x0A, 0x14, 0x1E, 0xE4, 0x55]) =
     (([10, 20, 30], True, Success), [])"
proof -
  have e: "send_data [] (map IntVal [10, 20, 30]) =
      Inr [0xAA, 0x03, 0x0A, 0x14, 0x1E, 0xE4, 0x55]"
    by code_simp
  show ?thesis
    using round_trip [of "[10, 20, 30]" "[]"] e by simp
qed

section \<open>Corruption of the checksum byte\<close>

lemma flip_differs: "(c::int) XOR push_bit k 1 \<noteq> c"
proof
  assume "c XOR push_bit k 1 = c"
  then have "c XOR (c XOR push_bit k 1) = c XOR c" by simp
  then have "push_bit k (1::int) = 0" by (simp add: xor.assoc [symmetric])
  then show False by simp
qed

lemma flip_is_byte:
  assumes "0 \<le> (c::int)" "c < 256" "k < 8"
  shows "0 \<le> c XOR push_bit k 1 \<and> c XOR push_bit k 1 < 256"
proof -
  have "(2::int) ^ k < 2 ^ 8" using assms(3) by (simp only: power_strict_increasing_iff)
  then have "push_bit k (1::int) < 2 ^ 8" by (simp add: push_bit_eq_mult)
  moreover have "c < 2 ^ 8" using assms by simp
  ultimately have "c XOR push_bit k 1 < 2 ^ 8"
    using assms(1) by (intro XOR_upper) simp_all
  moreover have "0 \<le> c XOR push_bit k 1" using assms(1) by simp
  ultimately show ?thesis by simp
qed

text \<open>
  C6.  For every payload \<open>p\<close> of 1 to 200 integers in 0..255 and every bit position
  \<open>k < 8\<close>: the sender's frame has its checksum at index \<open>length p + 2\<close>; with bit \<open>k\<close> of
  that byte flipped the frame is still a sequence of bytes, and the decoder returns the
  payload \<open>p\<close> with acknowledgement false through the CRC-mismatch return.
\<close>

theorem checksum_bit_flip_detected:
  assumes "1 \<le> length p" and "length p \<le> 200" and "\<forall>x\<in>set p. 0 \<le> x \<and> x \<le> 255"
    and "k < 8"
  shows "\<exists>frame. send_data [] (map IntVal p) = Inr frame \<and>
           frame ! (length p + 2) = calculate_crc (int (length p) # p) \<and>
           bytes_ok (frame[length p + 2 := frame ! (length p + 2) XOR push_bit k 1]) \<and>
           receive_data
             (lossless (frame[length p + 2 := frame ! (length p + 2) XOR push_bit k 1]) @ rest) =
             ((p, False, CrcMismatch), rest)"
proof -
  let ?crc = "calculate_crc (int (length p) # p)"
  let ?frame = "[START_BYTE, int (length p)] @ p @ [?crc, END_BYTE]"
  have s: "send_data [] (map IntVal p) = Inr ?frame"
    using assms by (simp add: send_data_eq map_clamp_id)
  have n: "?frame ! (length p + 2) = ?crc"
    by (simp add: nth_append)
  have u: "?frame[length p + 2 := ?crc XOR push_bit k 1] =
           [START_BYTE, int (length p)] @ p @ [?crc XOR push_bit k 1, END_BYTE]"
    by (simp add: list_update_append)
  have "0 \<le> ?crc XOR push_bit k 1 \<and> ?crc XOR push_bit k 1 < 256"
    using calculate_crc_range [of "int (length p) # p"] assms(4) by (intro flip_is_byte) simp_all
  then have b: "bytes_ok ([START_BYTE, int (length p)] @ p @ [?crc XOR push_bit k 1, END_BYTE])"
    using assms payload_bytes_ok [of p]
    by (simp add: bytes_ok_def START_BYTE_def END_BYTE_def)
  have "receive_data (map Some [] @
          map Some ([START_BYTE, int (length p)] @ p @ [?crc XOR push_bit k 1, END_BYTE]) @ rest) =
        ((p, False, CrcMismatch), rest)"
    using assms payload_bytes_ok [of p] flip_differs [of ?crc k]
    by (subst receive_frame) (simp_all add: eq_commute)
  then have "receive_data
      (lossless (?frame[length p + 2 := ?frame ! (length p + 2) XOR push_bit k 1]) @ rest) =
        ((p, False, CrcMismatch), rest)"
    unfolding n u by (simp add: lossless_def)
  moreover have "bytes_ok (?frame[length p + 2 := ?frame ! (length p + 2) XOR push_bit k 1])"
    unfolding n u by (rule b)
  ultimately show ?thesis using s n by blast
qed

theorem checksum_bit_flip_detected_witness:
  "send_data [] (map IntVal [10, 20, 30]) = Inr [0xAA, 0x03, 0x0A, 0x14, 0x1E, 0xE4, 0x55] \<and>
   receive_data (lossless [0xAA, 0x03, 0x0A, 0x14, 0x1E, 0xE5, 0x55]) =
     (([10, 20, 30], False, CrcMismatch), [])"
proof -
  have e: "send_data [] (map IntVal [10, 20, 30]) =
      Inr [0xAA, 0x03, 0x0A, 0x14, 0x1E, 0xE4, 0x55]"
    by code_simp
  have x: "(0xE4::int) XOR 1 = 0xE5" by simp
  show ?thesis
    using checksum_bit_flip_detected [of "[10, 20, 30]" 0 "[]"] e x by simp
qed

section \<open>Resynchronisation\<close>

text \<open>
  C7.  For every finite prefix of bytes none of which is the start marker 0xAA, followed
  by the frame the sender writes for a payload \<open>p\<close> of 1 to 200 integers in 0..255, the
  decoder skips the whole prefix and returns \<open>p\<close> with acknowledgement true (Success).
\<close>

theorem resynchronisation:
  assumes "1 \<le> length p" and "length p \<le> 200" and "\<forall>x\<in>set p. 0 \<le> x \<and> x \<le> 255"
    and "START_BYTE \<notin> set noise"
  shows "\<exists>frame. send_data [] (map IntVal p) = Inr frame \<and>
           receive_data (lossless (noise @ frame) @ rest) = ((p, True, Success), rest)"
proof -
  let ?frame = "[START_BYTE, int (length p)] @ p @ [calculate_crc (int (length p) # p), END_BYTE]"
  have s: "send_data [] (map IntVal p) = Inr ?frame"
    using assms by (simp add: send_data_eq map_clamp_id)
  have "receive_data (map Some noise @ map Some ?frame @ rest) = ((p, True, Success), rest)"
    using assms payload_bytes_ok [of p] by (subst receive_frame) simp_all
  then have "receive_data (lossless (noise @ ?frame) @ rest) = ((p, True, Success), rest)"
    by (simp add: lossless_def)
  with s show ?thesis by blast
qed

theorem resynchronisation_witness:
  "receive_data (lossless [0x00, 0x55, 0xFF, 0x03, 0xAA, 0x03, 0x0A, 0x14, 0x1E, 0xE4, 0x55]) =
     (([10, 20, 30], True, Success), [])"
proof -
  have e: "send_data [] (map IntVal [10, 20, 30]) =
      Inr [0xAA, 0x03, 0x0A, 0x14, 0x1E, 0xE4, 0x55]"
    by code_simp
  show ?thesis
    using resynchronisation [of "[10, 20, 30]" "[0x00, 0x55, 0xFF, 0x03]" "[]"] e
    by (simp add: START_BYTE_def)
qed

section \<open>A wrong end marker\<close>

text \<open>
  C10.  The decoder has read a start marker, a length in 1..200, that many payload bytes
  \<open>ps\<close> and a checksum byte \<open>c\<close>.  If the next byte \<open>e\<close> is not the end marker 0x55, it
  returns the empty payload with acknowledgement false (line 343): the bytes \<open>ps\<close> are
  dropped.  If instead the end marker is there and \<open>c\<close> is not the checksum of the frame,
  it returns \<open>ps\<close> with acknowledgement false (line 352).
\<close>

theorem bad_end_marker_drops_payload:
  assumes "1 \<le> length ps" and "length ps \<le> 200" and "\<forall>x\<in>set ps. 0 \<le> x \<and> x \<le> 255"
  shows "(e \<noteq> END_BYTE \<longrightarrow>
            receive_data (lossless ([START_BYTE, int (length ps)] @ ps @ [c, e]) @ rest) =
              (([], False, Desync), rest)) \<and>
         (c \<noteq> calculate_crc (int (length ps) # ps) \<longrightarrow>
            receive_data (lossless ([START_BYTE, int (length ps)] @ ps @ [c, END_BYTE]) @ rest) =
              ((ps, False, CrcMismatch), rest))"
proof -
  have f: "receive_data (lossless ([START_BYTE, int (length ps)] @ ps @ [c, e']) @ rest) =
     (if e' \<noteq> END_BYTE then (([], False, Desync), rest)
      else if \<not> bytes_ok ps then (([], False, ReceiveError), rest)
      else if calculate_crc (int (length ps) # ps) \<noteq> c then ((ps, False, CrcMismatch), rest)
      else ((ps, True, Success), rest))" for e'
    using receive_frame [of "[]" ps c e' rest] assms by (simp add: lossless_def)
  show ?thesis
    using payload_bytes_ok [of ps] assms(3) f [of e] f [of END_BYTE] by auto
qed

theorem bad_end_marker_drops_payload_witness:
  "receive_data (lossless [0xAA, 0x03, 0x0A, 0x14, 0x1E, 0xE4, 0x54]) = (([], False, Desync), []) \<and>
   receive_data (lossless [0xAA, 0x03, 0x0A, 0x14, 0x1E, 0xE3, 0x55]) =
     (([10, 20, 30], False, CrcMismatch), [])"
proof -
  have c: "calculate_crc [3, 10, 20, 30] = 0xE4" by code_simp
  show ?thesis
    using bad_end_marker_drops_payload [of "[10, 20, 30]" "0x54" "0xE4" "[]"]
      bad_end_marker_drops_payload [of "[10, 20, 30]" "0x54" "0xE3" "[]"] c
    by (simp add: START_BYTE_def END_BYTE_def)
qed

section \<open>The length byte and the payload loop\<close>

lemma receive_bad_length:
  assumes "START_BYTE \<notin> set noise" "l = 0 \<or> 200 < l"
  shows "receive_data (map Some noise @ Some START_BYTE # Some l # rest) = (([], False, Desync), rest)"
  using assms by (auto simp add: receive_data_def wait_start_noise)

lemma receive_short_payload:
  assumes "START_BYTE \<notin> set noise" "1 \<le> l" "l \<le> 200" "int (length ps) < l"
    and "rest = [] \<or> hd rest = None"
  shows "receive_data (map Some noise @ Some START_BYTE # Some l # map Some ps @ rest) =
           (([], False, Timeout), tl rest)"
proof -
  have "length ps < nat l" using assms by linarith
  then have "read_pwm (nat l) [] (map Some ps @ rest) = (None, tl rest)"
    using assms(5) by (rule read_pwm_short)
  then show ?thesis
    using assms by (simp add: receive_data_def wait_start_noise)
qed

text \<open>
  C5.  After a start marker (found after any noise without one), a length byte of 0 or
  above 200 ends the call with the empty payload and acknowledgement false (Desync), and
  nothing after the length byte is read.  A length byte of 200 is accepted: the decoder
  then reads 200 payload bytes, the checksum and the end byte, and its result depends on
  those two alone; with fewer than 200 payload bytes on the port it runs into a read
  timeout.
\<close>

theorem length_boundary:
  assumes "START_BYTE \<notin> set noise"
  shows "(l = 0 \<or> 200 < l \<longrightarrow>
            receive_data (lossless (noise @ [START_BYTE, l]) @ rest) = (([], False, Desync), rest)) \<and>
         (length ps = 200 \<and> (\<forall>x\<in>set ps. 0 \<le> x \<and> x \<le> 255) \<longrightarrow>
            receive_data (lossless (noise @ [START_BYTE, 200] @ ps @ [c, e]) @ rest) =
              (if e \<noteq> END_BYTE then (([], False, Desync), rest)
               else if calculate_crc (200 # ps) \<noteq> c then ((ps, False, CrcMismatch), rest)
               else ((ps, True, Success), rest))) \<and>
         (length ps < 200 \<longrightarrow>
            receive_data (lossless (noise @ [START_BYTE, 200] @ ps)) = (([], False, Timeout), []))"
proof (intro conjI impI)
  assume "l = 0 \<or> 200 < l"
  then show "receive_data (lossless (noise @ [START_BYTE, l]) @ rest) = (([], False, Desync), rest)"
    using receive_bad_length [OF assms, of l rest] by (simp add: lossless_def)
next
  assume a: "length ps = 200 \<and> (\<forall>x\<in>set ps. 0 \<le> x \<and> x \<le> 255)"
  then have "bytes_ok ps" by (simp add: payload_bytes_ok)
  then show "receive_data (lossless (noise @ [START_BYTE, 200] @ ps @ [c, e]) @ rest) =
              (if e \<noteq> END_BYTE then (([], False, Desync), rest)
               else if calculate_crc (200 # ps) \<noteq> c then ((ps, False, CrcMismatch), rest)
               else ((ps, True, Success), rest))"
    using receive_frame [OF assms, of ps c e rest] a by (simp add: lossless_def)
next
  assume "length ps < 200"
  then show "receive_data (lossless (noise @ [START_BYTE, 200] @ ps)) = (([], False, Timeout), [])"
    using receive_short_payload [OF assms, of 200 ps "[]"] by (simp add: lossless_def)
qed

theorem length_boundary_witness:
  "receive_data (lossless [0xAA, 0] @ [Some 1, Some 2]) = (([], False, Desync), [Some 1, Some 2]) \<and>
   receive_data (lossless [0xAA, 201] @ [Some 1, Some 2]) = (([], False, Desync), [Some 1, Some 2]) \<and>
   receive_data (lossless ([0xAA, 200] @ replicate 200 7 @ [calculate_crc (200 # replicate 200 7), 0x55])) =
     ((replicate 200 7, True, Success), []) \<and>
   receive_data (lossless ([0xAA, 200] @ replicate 199 7)) = (([], False, Timeout), [])"
proof -
  have n: "START_BYTE \<notin> set []" by simp
  show ?thesis
    using length_boundary [OF n, of 0 "[Some 1, Some 2]" "replicate 200 7"]
      length_boundary [OF n, of 0 "[]" "replicate 200 7"
        "calculate_crc (200 # replicate 200 7)" "0x55"]
      length_boundary [OF n, of 201 "[Some 1, Some 2]" "replicate 199 7"]
    by (simp add: START_BYTE_def END_BYTE_def)
qed

text \<open>
  C4, as the specification states it, fails: with a start marker, the length 3 and the
  single payload byte 7 on the port, the decoder returns the empty payload, not the
  collected byte 7.
\<close>

theorem partial_payload_counterexample:
  "receive_data (lossless [0xAA, 3, 7]) = (([], False, Timeout), []) \<and>
   fst (fst (receive_data (lossless [0xAA, 3, 7]))) \<noteq> [7]"
  by (simp add: receive_data_def lossless_def START_BYTE_def numeral_3_eq_3)

text \<open>
  C4, amended.  For every port that delivers a start marker (after any noise without
  one), a length \<open>l\<close> in 1..200 and then fewer than \<open>l\<close> payload bytes before a read
  times out, the decoder returns the empty payload with acknowledgement false through
  the timeout return of line 331: the bytes collected so far are dropped.
\<close>

theorem timeout_in_payload_returns_empty:
  assumes "START_BYTE \<notin> set noise" and "1 \<le> l" and "l \<le> 200" and "int (length ps) < l"
    and "rest = [] \<or> hd rest = None"
  shows "receive_data (lossless (noise @ [START_BYTE, l] @ ps) @ rest) = (([], False, Timeout), tl rest)"
  using receive_short_payload [OF assms] by (simp add: lossless_def)

theorem timeout_in_payload_returns_empty_witness:
  "receive_data (lossless [0x01, 0xAA, 3, 7, 8] @ [None, Some 9]) = (([], False, Timeout), [Some 9])"
  using timeout_in_payload_returns_empty [of "[0x01]" 3 "[7, 8]" "[None, Some 9]"]
  by (simp add: START_BYTE_def)

section \<open>The range check of the decoder\<close>

text \<open>Every value a reading loop returns was delivered by the port.\<close>

lemma read1_subset: "read1 p = (r, p') \<Longrightarrow> set p' \<subseteq> set p \<and> (\<forall>b. r = Some b \<longrightarrow> Some b \<in> set p)"
  by (cases p) auto

lemma wait_start_subset: "wait_start p = (f, p') \<Longrightarrow> set p' \<subseteq> set p"
  by (induction p rule: wait_start.induct) (auto split: if_splits)

lemma read_pwm_subset:
  "read_pwm n acc p = (Some vs, p') \<Longrightarrow>
   set p' \<subseteq> set p \<and> set vs \<subseteq> set acc \<union> {b. Some b \<in> set p}"
proof (induction n arbitrary: acc p)
  case 0
  then show ?case by auto
next
  case (Suc n)
  show ?case
  proof (cases p)
    case Nil
    with Suc.prems show ?thesis by simp
  next
    case (Cons r p0)
    show ?thesis
    proof (cases r)
      case None
      with Cons Suc.prems show ?thesis by simp
    next
      case (Some b)
      with Cons Suc.prems have "read_pwm n (acc @ [b]) p0 = (Some vs, p')" by simp
      from Suc.IH [OF this] Cons Some show ?thesis by auto
    qed
  qed
qed

lemma range_valid_bytes: "\<forall>x\<in>set vs. 0 \<le> x \<and> x \<le> 255 \<Longrightarrow> range_valid vs"
  by (auto simp: range_valid_def list_ex_iff MIN_PWM_def MAX_PWM_def)

text \<open>
  C9.  On every port whose reads deliver only values in 0..255, the decoder never takes
  the range-error return of line 363.
\<close>

theorem range_error_unreachable:
  assumes "\<forall>b. Some b \<in> set p \<longrightarrow> 0 \<le> b \<and> b \<le> 255"
  shows "snd (snd (fst (receive_data p))) \<noteq> RangeError"
proof
  assume r: "snd (snd (fst (receive_data p))) = RangeError"
  then obtain p1 l p2 vs p3 where
    w: "wait_start p = (True, p1)" and l: "read1 p1 = (Some l, p2)"
    and v: "read_pwm (nat l) [] p2 = (Some vs, p3)" and n: "\<not> range_valid vs"
    by (auto simp: receive_data_def split: prod.splits bool.splits option.splits if_splits)
  have "set p2 \<subseteq> set p"
    using wait_start_subset [OF w] read1_subset [OF l] by blast
  moreover have "set vs \<subseteq> {b. Some b \<in> set p2}"
    using read_pwm_subset [OF v] by simp
  ultimately have "\<forall>x\<in>set vs. 0 \<le> x \<and> x \<le> 255"
    using assms by blast
  then have "range_valid vs" by (rule range_valid_bytes)
  with n show False by simp
qed

text \<open>
  An instance that gets as far as the range check: the frame AA 02 00 FF 25 55 has the
  right checksum and end marker, so step 7 runs on the values 0 and 255 and passes.
\<close>

theorem range_error_unreachable_witness:
  "snd (snd (fst (receive_data (lossless [0xAA, 2, 0, 255, 0x25, 0x55])))) \<noteq> RangeError \<and>
   calculate_crc [2, 0, 255] = 0x25 \<and>
   receive_data (lossless [0xAA, 2, 0, 255, 0x25, 0x55]) = (([0, 255], True, Success), [])"
proof -
  have c: "calculate_crc [2, 0, 255] = 0x25" by code_simp
  have r: "receive_data (lossless [0xAA, 2, 0, 255, 0x25, 0x55]) = (([0, 255], True, Success), [])"
    using receive_frame [of "[]" "[0, 255]" "0x25" "0x55" "[]"] c
    by (simp add: lossless_def START_BYTE_def END_BYTE_def bytes_ok_def)
  have "snd (snd (fst (receive_data (lossless [0xAA, 2, 0, 255, 0x25, 0x55])))) \<noteq> RangeError"
    using range_error_unreachable [of "lossless [0xAA, 2, 0, 255, 0x25, 0x55]"]
    by (simp add: lossless_def)
  with c r show ?thesis by simp
qed

section \<open>Clamping in the encoder\<close>

text \<open>
  C8, as the specification states it, fails in three ways.  For 256 values, all \<open>-5\<close>,
  \<^verbatim>\<open>bytes([data_length] + pwm_values)\<close> raises \<^verbatim>\<open>ValueError\<close>.  For a payload holding an
  infinity or NaN, \<^verbatim>\<open>int(pwm)\<close> raises.  In each case nothing is written.  And the
  fractional value 1.7, which is within 0..255, goes out as the byte 1.
\<close>

theorem clamping_counterexample:
  "send_data [] (map IntVal (replicate 256 (-5))) = Inl ValueError \<and>
   send_data [] [PosInf] = Inl OverflowError \<and>
   send_data [] [NaN] = Inl ValueError \<and>
   send_data [] [FloatVal 1.7] = Inr [0xAA, 1, 1, calculate_crc [1, 1], 0x55]"
proof -
  have "send_data [] (map IntVal (replicate 256 (-5))) = Inl ValueError"
    by (rule send_data_too_long) simp
  moreover have "send_data [] [PosInf] = Inl OverflowError"
    by (simp add: send_data_def)
  moreover have "send_data [] [NaN] = Inl ValueError"
    by (simp add: send_data_def)
  moreover have "send_data [] [FloatVal 1.7] = Inr [0xAA, 1, 1, calculate_crc [1, 1], 0x55]"
    by (simp add: send_data_def Let_def bytes_ok_def clamp_pwm_def MIN_PWM_def MAX_PWM_def
        START_BYTE_def END_BYTE_def)
  ultimately show ?thesis by simp
qed

text \<open>
  C8, amended.  For every payload of at most 255 values, each an integer or a finite
  float, the sender raises nothing and writes a frame of \<open>length data + 4\<close> bytes in which
  the wire byte of each value (at index \<open>i + 2\<close>) is 0 for a value below 0 and 255 for a
  value above 255; an integer within 0..255 goes out unchanged, and a float within 0..255
  goes out as its integer part.
\<close>

theorem encoder_clamps:
  assumes "length data \<le> 255"
    and "\<forall>v\<in>set data. v \<noteq> NaN \<and> v \<noteq> PosInf \<and> v \<noteq> NegInf"
  shows "\<exists>frame. send_data tx data = Inr (tx @ frame) \<and>
           length frame = length data + 4 \<and>
           (\<forall>i<length data.
              frame ! (i + 2) =
                (case data ! i of
                   IntVal n \<Rightarrow> if n < 0 then 0 else if n > 255 then 255 else n
                 | FloatVal r \<Rightarrow> if r < 0 then 0 else if r > 255 then 255 else \<lfloor>r\<rfloor>))"
proof -
  let ?wire = "\<lambda>v. clamp_pwm (projr (py_int v))"
  let ?frame = "[START_BYTE, int (length data)] @ map ?wire data @
          [calculate_crc (int (length data) # map ?wire data), END_BYTE]"
  have s: "send_data tx data = Inr (tx @ ?frame)"
    using assms by (rule send_data_finite)
  have w: "?wire v =
      (case v of
         IntVal n \<Rightarrow> if n < 0 then 0 else if n > 255 then 255 else n
       | FloatVal r \<Rightarrow> if r < 0 then 0 else if r > 255 then 255 else \<lfloor>r\<rfloor>)"
    if "v \<noteq> NaN \<and> v \<noteq> PosInf \<and> v \<noteq> NegInf" for v
  proof (cases v)
    case (IntVal n)
    then show ?thesis by (simp add: clamp_pwm_def MIN_PWM_def MAX_PWM_def)
  next
    case (FloatVal r)
    consider "r < 0" | "0 \<le> r" "r \<le> 255" | "255 < r" by linarith
    then have "clamp_pwm (if 0 \<le> r then \<lfloor>r\<rfloor> else \<lceil>r\<rceil>) =
        (if r < 0 then 0 else if r > 255 then 255 else \<lfloor>r\<rfloor>)"
    proof cases
      case 1
      then have "\<lceil>r\<rceil> \<le> 0" by (simp add: ceiling_le_iff)
      then have "clamp_pwm \<lceil>r\<rceil> = 0" by (rule clamp_pwm_low)
      with 1 show ?thesis by simp
    next
      case 2
      then have "0 \<le> \<lfloor>r\<rfloor>" and "\<lfloor>r\<rfloor> \<le> 255"
        by (simp_all add: floor_le_iff le_floor_iff)
      then have "clamp_pwm \<lfloor>r\<rfloor> = \<lfloor>r\<rfloor>" by (rule clamp_pwm_id)
      with 2 show ?thesis by simp
    next
      case 3
      then have "255 \<le> \<lfloor>r\<rfloor>" by (simp add: le_floor_iff)
      then have "clamp_pwm \<lfloor>r\<rfloor> = 255" by (rule clamp_pwm_high)
      with 3 show ?thesis by simp
    qed
    then show ?thesis
      unfolding FloatVal by (simp only: py_int.simps sum.sel number.case)
  qed (use that in simp_all)
  have "?frame ! (i + 2) =
      (case data ! i of
         IntVal n \<Rightarrow> if n < 0 then 0 else if n > 255 then 255 else n
       | FloatVal r \<Rightarrow> if r < 0 then 0 else if r > 255 then 255 else \<lfloor>r\<rfloor>)"
    if "i < length data" for i
  proof -
    have "?frame ! (i + 2) = ?wire (data ! i)"
      using that by (simp add: nth_append)
    moreover have "data ! i \<noteq> NaN \<and> data ! i \<noteq> PosInf \<and> data ! i \<noteq> NegInf"
      using assms(2) that by simp
    ultimately show ?thesis using w by simp
  qed
  moreover have "length ?frame = length data + 4" by simp
  ultimately show ?thesis using s by blast
qed

theorem encoder_clamps_witness:
  "\<exists>frame. send_data [] [IntVal (-5), IntVal 300, IntVal 17, FloatVal 1.7] = Inr frame \<and>
     length frame = 8 \<and>
     frame ! 2 = 0 \<and> frame ! 3 = 255 \<and> frame ! 4 = 17 \<and> frame ! 5 = 1"
proof -
  let ?data = "[IntVal (-5), IntVal 300, IntVal 17, FloatVal 1.7]"
  obtain frame where f: "send_data [] ?data = Inr ([] @ frame)"
    and l: "length frame = length ?data + 4"
    and n: "\<forall>i<length ?data. frame ! (i + 2) =
         (case ?data ! i of
            IntVal n \<Rightarrow> if n < 0 then 0 else if n > 255 then 255 else n
          | FloatVal r \<Rightarrow> if r < 0 then 0 else if r > 255 then 255 else \<lfloor>r\<rfloor>)"
    using encoder_clamps [of ?data "[]"] by auto
  have "frame ! 2 = 0" using n [rule_format, of 0] by (simp add: eval_nat_numeral)
  moreover have "frame ! 3 = 255" using n [rule_format, of 1] by (simp add: eval_nat_numeral)
  moreover have "frame ! 4 = 17" using n [rule_format, of 2] by (simp add: eval_nat_numeral)
  moreover have "frame ! 5 = 1" using n [rule_format, of 3] by (simp add: eval_nat_numeral)
  ultimately show ?thesis using f l by simp
qed

section \<open>The receiver loop\<close>

lemma task_step_fields:
  assumes "receive_data (ser s) = (out, p')"
  shows "ser (task_step s) = p'"
    and "no_of_tries (task_step s) = Suc (no_of_tries s)"
    and "received_data (task_step s) = received_data s @ map fst (filter recorded [out])"
    and "no_of_success (task_step s) = no_of_success s + int (length (filter acked [out]))"
  using assms by (auto simp: task_step_def Let_def recorded_def acked_def split: prod.splits)

lemma attempts_snoc: "\<exists>out. attempts (Suc k) q = attempts k q @ [out]"
proof (induction k arbitrary: q)
  case 0
  show ?case by (simp split: prod.split)
next
  case (Suc k)
  obtain out q' where r: "receive_data q = (out, q')" by (cases "receive_data q")
  from Suc [of q'] obtain out' where "attempts (Suc k) q' = attempts k q' @ [out']" by blast
  then have "attempts (Suc (Suc k)) q = attempts (Suc k) q @ [out']"
    using r by simp
  then show ?case by blast
qed

lemma attempts_Suc_filter:
  "length (filter P (attempts (Suc k) q)) \<le> Suc (length (filter P (attempts k q)))"
proof -
  obtain out where "attempts (Suc k) q = attempts k q @ [out]"
    using attempts_snoc by blast
  then show ?thesis by simp
qed

lemma task_loop_attempts:
  "\<exists>k. no_of_tries (task_loop s) = no_of_tries s + k \<and>
       received_data (task_loop s) =
         received_data s @ map fst (filter recorded (attempts k (ser s))) \<and>
       no_of_success (task_loop s) =
         no_of_success s + int (length (filter acked (attempts k (ser s)))) \<and>
       (\<forall>m<k. length (received_data s) + length (filter recorded (attempts m (ser s))) < 100 \<and>
               no_of_tries s + m < 150) \<and>
       \<not> (length (received_data (task_loop s)) < 100 \<and> no_of_tries (task_loop s) < 150)"
proof (induction s rule: task_loop.induct)
  case (1 s)
  show ?case
  proof (cases "length (received_data s) < 100 \<and> no_of_tries s < 150")
    case False
    then have "task_loop s = s" by (subst task_loop.simps) auto
    with False show ?thesis by (intro exI [of _ 0]) simp
  next
    case True
    obtain out p' where r: "receive_data (ser s) = (out, p')" by (cases "receive_data (ser s)")
    note f = task_step_fields [OF r]
    have l: "task_loop s = task_loop (task_step s)"
      using True by (subst task_loop.simps) simp
    from "1.IH" [OF True] obtain k where
      k1: "no_of_tries (task_loop (task_step s)) = no_of_tries (task_step s) + k"
      and k2: "received_data (task_loop (task_step s)) =
         received_data (task_step s) @ map fst (filter recorded (attempts k (ser (task_step s))))"
      and k3: "no_of_success (task_loop (task_step s)) =
         no_of_success (task_step s) + int (length (filter acked (attempts k (ser (task_step s)))))"
      and k4: "\<forall>m<k. length (received_data (task_step s)) +
                 length (filter recorded (attempts m (ser (task_step s)))) < 100 \<and>
               no_of_tries (task_step s) + m < 150"
      and k5: "\<not> (length (received_data (task_loop (task_step s))) < 100 \<and>
                 no_of_tries (task_loop (task_step s)) < 150)"
      by blast
    have a: "attempts (Suc m) (ser s) = out # attempts m p'" for m
      using r by simp
    have "\<forall>m<Suc k. length (received_data s) + length (filter recorded (attempts m (ser s))) < 100 \<and>
               no_of_tries s + m < 150"
    proof (intro allI impI)
      fix m assume "m < Suc k"
      show "length (received_data s) + length (filter recorded (attempts m (ser s))) < 100 \<and>
               no_of_tries s + m < 150"
      proof (cases m)
        case 0
        with True show ?thesis by simp
      next
        case (Suc m')
        with \<open>m < Suc k\<close> have "m' < k" by simp
        with k4 show ?thesis unfolding Suc a f by auto
      qed
    qed
    moreover have "no_of_tries (task_loop s) = no_of_tries s + Suc k"
      unfolding l k1 f by simp
    moreover have "received_data (task_loop s) =
         received_data s @ map fst (filter recorded (attempts (Suc k) (ser s)))"
      unfolding l k2 f a by simp
    moreover have "no_of_success (task_loop s) =
         no_of_success s + int (length (filter acked (attempts (Suc k) (ser s))))"
      unfolding l k3 f a by simp
    moreover have "\<not> (length (received_data (task_loop s)) < 100 \<and> no_of_tries (task_loop s) < 150)"
      unfolding l by (rule k5)
    ultimately show ?thesis by blast
  qed
qed

text \<open>
  C3, as the specification states it, fails: on a port that delivers 100 frames with a
  non-zero payload and a wrong checksum, the loop stops after 100 attempts with no
  success at all, since each failed decode was appended to \<^verbatim>\<open>received_data\<close>.
\<close>

theorem receiver_loop_counterexample:
  "receive_thread_task (lossless (concat (replicate 100 [0xAA, 1, 1, 0, 0x55]))) [] 0 =
     \<lparr>ser = [], received_data = replicate 100 [1], no_of_success = 0, no_of_tries = 100\<rparr>"
  by code_simp

text \<open>
  C3, amended.  Started with an empty \<^verbatim>\<open>received_data\<close> and a success count of 0, the loop
  makes \<open>n\<close> attempts, where \<open>n\<close> is the first number of attempts after which 100
  outcomes have been recorded, or 150 if that comes first.  Recorded are the acknowledged
  outcomes and also the failed ones whose returned payload has a non-zero value;
  \<^verbatim>\<open>received_data\<close> holds their payloads in order and \<^verbatim>\<open>no_of_success\<close> counts the
  acknowledged ones.
\<close>

theorem receiver_loop_bound:
  "let s = receive_thread_task p [] 0; n = no_of_tries s in
     received_data s = map fst (filter recorded (attempts n p)) \<and>
     no_of_success s = int (length (filter acked (attempts n p))) \<and>
     (length (filter recorded (attempts n p)) = 100 \<or> n = 150) \<and>
     (\<forall>m<n. length (filter recorded (attempts m p)) < 100 \<and> m < 150)"
proof -
  let ?s0 = "\<lparr>ser = p, received_data = [], no_of_success = 0, no_of_tries = 0\<rparr>"
  from task_loop_attempts [of ?s0] obtain k where
    k1: "no_of_tries (task_loop ?s0) = k"
    and k2: "received_data (task_loop ?s0) = map fst (filter recorded (attempts k p))"
    and k3: "no_of_success (task_loop ?s0) = int (length (filter acked (attempts k p)))"
    and k4: "\<forall>m<k. length (filter recorded (attempts m p)) < 100 \<and> m < 150"
    and k5: "\<not> (length (received_data (task_loop ?s0)) < 100 \<and> no_of_tries (task_loop ?s0) < 150)"
    by auto
  have "k \<le> 150"
  proof (cases k)
    case 0 then show ?thesis by simp
  next
    case (Suc k')
    with k4 have "k' < 150" by simp
    with Suc show ?thesis by simp
  qed
  moreover have "length (filter recorded (attempts k p)) \<le> 100"
  proof (cases k)
    case 0 then show ?thesis by simp
  next
    case (Suc k')
    with k4 have "length (filter recorded (attempts k' p)) < 100" by simp
    moreover have "length (filter recorded (attempts (Suc k') p)) \<le>
        Suc (length (filter recorded (attempts k' p)))"
      by (rule attempts_Suc_filter)
    ultimately show ?thesis unfolding Suc by linarith
  qed
  ultimately have "length (filter recorded (attempts k p)) = 100 \<or> k = 150"
    using k5 unfolding k1 k2 by auto
  then show ?thesis
    unfolding receive_thread_task_def Let_def k1 k2 k3 using k4 by simp
qed

theorem receiver_loop_bound_witness:
  "no_of_tries (receive_thread_task [] [] 0) = 150 \<and>
   received_data (receive_thread_task [] [] 0) = map fst (filter recorded (attempts 150 [])) \<and>
   length (filter recorded (attempts 149 [])) < 100"
proof -
  have e: "receive_thread_task [] [] 0 =
      \<lparr>ser = [], received_data = [], no_of_success = 0, no_of_tries = 150\<rparr>"
    by code_simp
  have "(149::nat) < 150" by simp
  then show ?thesis
    using receiver_loop_bound [of "[]"] unfolding Let_def e by simp
qed

end
